theory Spec2Isabelle
  imports Complex_Main "HOL-Library.Word" "HOL-Library.AList"
begin

section \<open>Data model (OrderBook.h)\<close>

text \<open>
  The book of \<^verbatim>\<open>OrderBook.h\<close> / \<^verbatim>\<open>OrderBook.cpp\<close> keeps every order in a heap object
  owned through \<^verbatim>\<open>shared_ptr<Order>\<close>; the price levels hold these pointers and the
  queries hand the same pointers to the caller.  The model therefore has an explicit
  store: an address is a natural number, \<open>heap\<close> maps addresses to order values and
  \<^verbatim>\<open>make_shared\<close> takes the next unused address.  An object is never taken out of the
  store: a caller may still hold a pointer to an order after the book dropped it.

  Modelling decisions:
  \<^item> A \<^verbatim>\<open>double\<close> price is either \<open>NaN\<close> or a number \<open>Num x\<close>.  The code never
    computes with prices, it only compares them, so a number is known by its place in the
    order of the non-NaN doubles (the infinities are its two ends, and the two zeros are
    one value, as for \<^verbatim>\<open>==\<close>).  The comparisons of the source are the functions
    \<open>dless\<close> (\<^verbatim>\<open><\<close>), \<open>dle\<close> (\<^verbatim>\<open><=\<close>), \<open>deq\<close> (\<^verbatim>\<open>==\<close>) and \<open>dneq\<close> (\<^verbatim>\<open>!=\<close>): with a
    NaN operand the first three are false and the last is true.  The equality \<open>=\<close> of
    HOL on prices is identity of the value, not the \<^verbatim>\<open>==\<close> of the source.
  \<^item> \<^verbatim>\<open>uint64_t\<close> quantities are 64-bit words, \<^verbatim>\<open>TimePoint\<close> is the integer tick count
    of the clock.
  \<^item> \<^verbatim>\<open>std::map<double, PriceLevel, Cmp>\<close> is the list of its entries from \<^verbatim>\<open>begin()\<close>
    to \<^verbatim>\<open>end()\<close>; an iterator into the map is a position in that list.
  \<^item> \<^verbatim>\<open>std::list<shared_ptr<Order>>\<close> is a list of addresses.  A list iterator names
    the node that holds an order's pointer; as every order object is created once and
    sits in one node at a time, the iterator is modelled by that address: \<^verbatim>\<open>*it\<close> is the
    address, \<^verbatim>\<open>erase(it)\<close> takes the address out of the list that holds it.
  \<^item> \<^verbatim>\<open>unordered_map<string, OrderLookup>\<close> is an association list (its iteration
    order is unspecified in C++; the model iterates in list order).
  \<^item> The field \<^verbatim>\<open>Order::id\<close> is called \<open>oid\<close>, the fields of \<^verbatim>\<open>Transaction\<close> are
    \<open>txn_type\<close> and \<open>txn_time\<close>, \<^verbatim>\<open>PriceLevel::price\<close> is \<open>level_price\<close> and the
    fields \<^verbatim>\<open>side\<close>, \<^verbatim>\<open>price\<close> of \<^verbatim>\<open>OrderLookup\<close> are \<open>lk_side\<close>, \<open>lk_price\<close>.
  \<^item> \<^verbatim>\<open>PriceLevel::order_count\<close>, \<^verbatim>\<open>total_quantity\<close> and the two counting queries
    \<^verbatim>\<open>num_orders_at\<close>, \<^verbatim>\<open>num_orders_on_side\<close> are not modelled; no property below
    reads them.
\<close>

datatype Side = Bid | Ask

datatype TxnType = Add | Amend | Remove

datatype double = Num real | NaN

fun dless :: "double \<Rightarrow> double \<Rightarrow> bool" where
  "dless (Num x) (Num y) = (x < y)"
| "dless _ _ = False"

fun dle :: "double \<Rightarrow> double \<Rightarrow> bool" where
  "dle (Num x) (Num y) = (x \<le> y)"
| "dle _ _ = False"

fun deq :: "double \<Rightarrow> double \<Rightarrow> bool" where
  "deq (Num x) (Num y) = (x = y)"
| "deq _ _ = False"

definition dneq :: "double \<Rightarrow> double \<Rightarrow> bool" where
  "dneq a b = (\<not> deq a b)"

type_synonym TimePoint = int

type_synonym addr = nat

record Transaction =
  txn_type :: TxnType
  txn_time :: TimePoint

record Order =
  oid :: string
  side :: Side
  price :: double
  quantity :: "64 word"
  creation_time :: TimePoint
  last_update_time :: TimePoint
  last_txn :: Transaction

text \<open>The constructor \<^verbatim>\<open>Order(id_, side_, price_, qty_, now)\<close>.\<close>

definition mk_Order :: "string \<Rightarrow> Side \<Rightarrow> double \<Rightarrow> 64 word \<Rightarrow> TimePoint \<Rightarrow> Order" where
  "mk_Order i sd p q now =
     \<lparr>oid = i, side = sd, price = p, quantity = q, creation_time = now,
      last_update_time = now, last_txn = \<lparr>txn_type = Add, txn_time = now\<rparr>\<rparr>"

record PriceLevel =
  level_price :: double
  orders :: "addr list"

text \<open>
  The comparators \<^verbatim>\<open>DescPrice\<close> (bids, \<^verbatim>\<open>a > b\<close>) and \<^verbatim>\<open>AscePrice\<close> / \<^verbatim>\<open>std::less\<close>
  (asks, \<^verbatim>\<open>a < b\<close>).
\<close>

definition DescPrice :: "double \<Rightarrow> double \<Rightarrow> bool" where
  "DescPrice a b = dless b a"

definition AscePrice :: "double \<Rightarrow> double \<Rightarrow> bool" where
  "AscePrice a b = dless a b"

type_synonym pl_map = "(double \<times> PriceLevel) list"

record OrderLookup =
  lk_side :: Side
  lk_price :: double
  list_it :: addr

record OrderBook =
  heap :: "addr \<Rightarrow> Order option"
  next_addr :: addr
  bid_book :: pl_map
  ask_book :: pl_map
  orders_by_id :: "(string \<times> OrderLookup) list"

definition empty_book :: OrderBook where
  "empty_book = \<lparr>heap = Map.empty, next_addr = 0, bid_book = [], ask_book = [],
                 orders_by_id = []\<rparr>"

section \<open>Container operations\<close>

text \<open>
  \<^verbatim>\<open>std::map::find(k)\<close> is, in the library the code is built with, a lower bound
  followed by one more comparison: the lower bound is the first entry whose key is
  not before \<open>k\<close> under the comparator, and the entry is the result unless \<open>k\<close> is before
  its key.  No equality of keys is used.  So a lookup of NaN, which is before nothing
  and after nothing, ends at \<^verbatim>\<open>begin()\<close> of a map that is not empty, and a key NaN is
  found by the lookup of every price.  The tree of the library and the scan from
  \<^verbatim>\<open>begin()\<close> below give the same lower bound whenever the entries before \<open>k\<close> are a
  front part of the map; that is so in every state of the book, whose keys are numbers in
  the strict order of the comparator or else the one key NaN (a key is only ever emplaced
  after a lookup that found nothing).
\<close>

fun lower_bound :: "(double \<Rightarrow> double \<Rightarrow> bool) \<Rightarrow> double \<Rightarrow> pl_map \<Rightarrow> nat" where
  "lower_bound cmp k [] = 0"
| "lower_bound cmp k (kv # m) = (if cmp (fst kv) k then Suc (lower_bound cmp k m) else 0)"

definition map_find :: "(double \<Rightarrow> double \<Rightarrow> bool) \<Rightarrow> double \<Rightarrow> pl_map \<Rightarrow> nat option" where
  "map_find cmp k m =
     (let j = lower_bound cmp k m
      in if j < length m \<and> \<not> cmp k (fst (m ! j)) then Some j else None)"

text \<open>
  \<^verbatim>\<open>map::emplace\<close> puts a new key at its place in the comparator's order and returns
  its position; when an entry that is neither before nor after the key is in the way, the
  map stays as it is and the position of that entry is returned.
\<close>

fun map_emplace ::
  "(double \<Rightarrow> double \<Rightarrow> bool) \<Rightarrow> double \<Rightarrow> PriceLevel \<Rightarrow> pl_map \<Rightarrow> pl_map \<times> nat" where
  "map_emplace cmp k v [] = ([(k, v)], 0)"
| "map_emplace cmp k v (kv # m) =
     (if cmp k (fst kv) then ((k, v) # kv # m, 0)
      else if cmp (fst kv) k then
        (case map_emplace cmp k v m of (m', j) \<Rightarrow> (kv # m', Suc j))
      else (kv # m, 0))"

text \<open>\<^verbatim>\<open>map::erase(it)\<close> takes the entry at the position out of the map.\<close>

definition map_erase :: "nat \<Rightarrow> pl_map \<Rightarrow> pl_map" where
  "map_erase j m = take j m @ drop (Suc j) m"

text \<open>\<^verbatim>\<open>it->second.orders.push_back(order)\<close> for the entry at position \<open>j\<close>.\<close>

definition push_back_at :: "nat \<Rightarrow> addr \<Rightarrow> pl_map \<Rightarrow> pl_map" where
  "push_back_at j a m =
     m[j := (fst (m ! j), (snd (m ! j))\<lparr>orders := orders (snd (m ! j)) @ [a]\<rparr>)]"

text \<open>
  \<^verbatim>\<open>it->second.orders.erase(info.list_it)\<close> unlinks the node of the order from the chain
  it is linked in.  That is the chain of the level the order was pushed on; after a
  lookup of NaN the level \<^verbatim>\<open>it\<close> on which \<^verbatim>\<open>erase\<close> is called can be another one of the
  same map.  The model takes the address out of the level of the map that holds it.
\<close>

definition list_erase :: "addr \<Rightarrow> pl_map \<Rightarrow> pl_map" where
  "list_erase a m = map (\<lambda>kv. (fst kv, (snd kv)\<lparr>orders := remove1 a (orders (snd kv))\<rparr>)) m"

definition cmp_of :: "Side \<Rightarrow> double \<Rightarrow> double \<Rightarrow> bool" where
  "cmp_of sd = (case sd of Bid \<Rightarrow> DescPrice | Ask \<Rightarrow> AscePrice)"

definition book_of :: "Side \<Rightarrow> OrderBook \<Rightarrow> pl_map" where
  "book_of sd s = (case sd of Bid \<Rightarrow> bid_book s | Ask \<Rightarrow> ask_book s)"

definition set_book :: "Side \<Rightarrow> pl_map \<Rightarrow> OrderBook \<Rightarrow> OrderBook" where
  "set_book sd m s = (case sd of Bid \<Rightarrow> s\<lparr>bid_book := m\<rparr> | Ask \<Rightarrow> s\<lparr>ask_book := m\<rparr>)"

text \<open>
  Find or create the level at \<open>p\<close>, then \<^verbatim>\<open>push_back\<close> the pointer
  (\<^verbatim>\<open>add_order\<close> lines 16-21 and 30-35, \<^verbatim>\<open>amend_order\<close> lines 125-132).
\<close>

definition level_push_back ::
  "(double \<Rightarrow> double \<Rightarrow> bool) \<Rightarrow> double \<Rightarrow> addr \<Rightarrow> pl_map \<Rightarrow> pl_map" where
  "level_push_back cmp p a m =
     (case map_find cmp p m of
        Some j \<Rightarrow> push_back_at j a m
      | None \<Rightarrow>
          (case map_emplace cmp p \<lparr>level_price = p, orders = []\<rparr> m of
             (m1, j) \<Rightarrow> push_back_at j a m1))"

text \<open>
  Erase the node of the order, then erase the level found at position \<open>j\<close> when its list
  is empty (\<^verbatim>\<open>remove_order\<close> lines 62-66, \<^verbatim>\<open>amend_order\<close> lines 112-114).
\<close>

definition level_erase :: "nat \<Rightarrow> addr \<Rightarrow> pl_map \<Rightarrow> pl_map" where
  "level_erase j a m =
     (let m1 = list_erase a m
      in if orders (snd (m1 ! j)) = [] then map_erase j m1 else m1)"

section \<open>Mutating operations (OrderBook.cpp)\<close>

text \<open>
  The source writes the body of \<^verbatim>\<open>add_order\<close> twice, once for \<^verbatim>\<open>bid_book\<close> and once
  for \<^verbatim>\<open>ask_book\<close>, and runs the generic lambdas of \<^verbatim>\<open>remove_order\<close> and
  \<^verbatim>\<open>amend_order\<close> on the map of the order's side; the two copies differ in the map only.
  The model selects the map with \<open>book_of\<close> / \<open>set_book\<close> and its comparator with
  \<open>cmp_of\<close>.  No operation checks a price: any \<^verbatim>\<open>double\<close>, NaN too, goes into the
  lookups as it is.
\<close>

definition add_order ::
  "OrderBook \<Rightarrow> string \<Rightarrow> Side \<Rightarrow> double \<Rightarrow> 64 word \<Rightarrow> TimePoint \<Rightarrow> bool \<times> OrderBook" where
  "add_order s i sd p q t =
     (if map_of (orders_by_id s) i \<noteq> None then (False, s)
      else
        let a = next_addr s;
            ord = mk_Order i sd p q t;
            m = level_push_back (cmp_of sd) p a (book_of sd s);
            idx = AList.update i \<lparr>lk_side = sd, lk_price = p, list_it = a\<rparr> (orders_by_id s);
            ord' = ord\<lparr>last_txn := \<lparr>txn_type = Add, txn_time = t\<rparr>\<rparr>
        in (True, (set_book sd m s)\<lparr>heap := (heap s)(a \<mapsto> ord'), next_addr := Suc a,
                                    orders_by_id := idx\<rparr>))"

text \<open>The timestamp parameter of \<^verbatim>\<open>remove_order\<close> is never read.\<close>

definition remove_order :: "OrderBook \<Rightarrow> string \<Rightarrow> TimePoint \<Rightarrow> bool \<times> OrderBook" where
  "remove_order s i t =
     (case map_of (orders_by_id s) i of
        None \<Rightarrow> (False, s)
      | Some info \<Rightarrow>
          let sd = lk_side info; p = lk_price info; m = book_of sd s
          in (case map_find (cmp_of sd) p m of
                None \<Rightarrow> (False, s)
              | Some j \<Rightarrow>
                  (True, (set_book sd (level_erase j (list_it info) m) s)
                           \<lparr>orders_by_id := AList.delete i (orders_by_id s)\<rparr>)))"

text \<open>
  In \<^verbatim>\<open>amend_order\<close> every \<^verbatim>\<open>.value()\<close> of the source is guarded by \<^verbatim>\<open>has_value()\<close>;
  the model reads it with \<open>the\<close> under the same guard.  A null \<^verbatim>\<open>o_shared\<close> is an
  address without an object.  The test \<^verbatim>\<open>new_price.value() != old_price\<close> is \<open>dneq\<close>:
  it is true whenever one of the two is NaN.
\<close>

definition amend_order ::
  "OrderBook \<Rightarrow> string \<Rightarrow> double option \<Rightarrow> 64 word option \<Rightarrow> TimePoint \<Rightarrow> bool \<times> OrderBook" where
  "amend_order s i new_price new_qty t =
     (case map_of (orders_by_id s) i of
        None \<Rightarrow> (False, s)
      | Some info \<Rightarrow>
          let o_shared = list_it info
          in (case heap s o_shared of
                None \<Rightarrow> (False, s)
              | Some ord \<Rightarrow>
                  let old_price = lk_price info;
                      old_qty = quantity ord;
                      sd = lk_side info;
                      price_changed = (new_price \<noteq> None \<and> dneq (the new_price) old_price);
                      qty_changed = (new_qty \<noteq> None \<and> the new_qty \<noteq> old_qty);
                      keep_priority = (\<not> price_changed \<and> qty_changed \<and> the new_qty < old_qty)
                  in if price_changed then
                       let m = book_of sd s;
                           m1 = (case map_find (cmp_of sd) old_price m of
                                   None \<Rightarrow> m
                                 | Some j \<Rightarrow> level_erase j o_shared m);
                           ord' = ord\<lparr>price := the new_price,
                                      quantity := (case new_qty of None \<Rightarrow> quantity ord
                                                   | Some q \<Rightarrow> q),
                                      last_update_time := t,
                                      last_txn := \<lparr>txn_type = Amend, txn_time = t\<rparr>\<rparr>;
                           m2 = level_push_back (cmp_of sd) (price ord') o_shared m1;
                           idx = AList.update i
                                   \<lparr>lk_side = sd, lk_price = price ord', list_it = o_shared\<rparr>
                                   (orders_by_id s)
                       in (True, (set_book sd m2 s)\<lparr>heap := (heap s)(o_shared \<mapsto> ord'),
                                                     orders_by_id := idx\<rparr>)
                     else if \<not> qty_changed then (False, s)
                     else if keep_priority then
                       (True, s\<lparr>heap := (heap s)(o_shared \<mapsto>
                                  ord\<lparr>quantity := the new_qty,
                                      last_txn := \<lparr>txn_type = Amend, txn_time = t\<rparr>\<rparr>)\<rparr>)
                     else
                       let m = book_of sd s
                       in (case map_find (cmp_of sd) old_price m of
                             None \<Rightarrow> (False, s)
                           | Some j \<Rightarrow>
                               let m1 = push_back_at j o_shared (list_erase o_shared m);
                                   ord' = ord\<lparr>quantity := the new_qty,
                                              last_update_time := t,
                                              last_txn := \<lparr>txn_type = Amend, txn_time = t\<rparr>\<rparr>;
                                   idx = AList.update i
                                           \<lparr>lk_side = sd, lk_price = old_price,
                                            list_it = o_shared\<rparr>
                                           (orders_by_id s)
                               in (True, (set_book sd m1 s)
                                           \<lparr>heap := (heap s)(o_shared \<mapsto> ord'),
                                            orders_by_id := idx\<rparr>))))"

section \<open>Queries (OrderBook.cpp)\<close>

text \<open>
  A query that returns \<^verbatim>\<open>shared_ptr<Order>\<close> returns the address; the caller reads the
  order's fields through the store of the state in which it looks.
\<close>

definition top_price :: "OrderBook \<Rightarrow> Side \<Rightarrow> double option" where
  "top_price s sd = (case book_of sd s of [] \<Rightarrow> None | kv # _ \<Rightarrow> Some (fst kv))"

definition bottom_price :: "OrderBook \<Rightarrow> Side \<Rightarrow> double option" where
  "bottom_price s sd = (case rev (book_of sd s) of [] \<Rightarrow> None | kv # _ \<Rightarrow> Some (fst kv))"

definition is_crossed :: "OrderBook \<Rightarrow> bool" where
  "is_crossed s =
     (case (top_price s Bid, top_price s Ask) of
        (Some top_bid, Some top_ask) \<Rightarrow> dle top_ask top_bid
      | _ \<Rightarrow> False)"

definition num_price_levels :: "OrderBook \<Rightarrow> Side \<Rightarrow> nat" where
  "num_price_levels s sd = length (book_of sd s)"

definition price_levels :: "OrderBook \<Rightarrow> Side \<Rightarrow> double list" where
  "price_levels s sd = map fst (book_of sd s)"

definition orders_at :: "OrderBook \<Rightarrow> Side \<Rightarrow> double \<Rightarrow> addr list" where
  "orders_at s sd p =
     (case map_find (cmp_of sd) p (book_of sd s) of
        None \<Rightarrow> []
      | Some j \<Rightarrow> orders (snd (book_of sd s ! j)))"

definition orders_on_side :: "OrderBook \<Rightarrow> Side \<Rightarrow> addr list" where
  "orders_on_side s sd = concat (map (\<lambda>kv. orders (snd kv)) (book_of sd s))"

definition get_order :: "OrderBook \<Rightarrow> string \<Rightarrow> addr option" where
  "get_order s i = map_option list_it (map_of (orders_by_id s) i)"

definition last_transaction :: "OrderBook \<Rightarrow> string \<Rightarrow> Transaction option" where
  "last_transaction s i =
     (case get_order s i of None \<Rightarrow> None | Some a \<Rightarrow> map_option last_txn (heap s a))"

definition scan_orders :: "OrderBook \<Rightarrow> (Order \<Rightarrow> bool) \<Rightarrow> addr list" where
  "scan_orders s P =
     filter (\<lambda>a. case heap s a of None \<Rightarrow> False | Some ord \<Rightarrow> P ord)
            (map (\<lambda>kv. list_it (snd kv)) (orders_by_id s))"

definition orders_created_before :: "OrderBook \<Rightarrow> TimePoint \<Rightarrow> addr list" where
  "orders_created_before s t = scan_orders s (\<lambda>ord. creation_time ord < t)"

definition orders_created_after :: "OrderBook \<Rightarrow> TimePoint \<Rightarrow> addr list" where
  "orders_created_after s t = scan_orders s (\<lambda>ord. creation_time ord > t)"

definition orders_updated_before :: "OrderBook \<Rightarrow> TimePoint \<Rightarrow> addr list" where
  "orders_updated_before s t = scan_orders s (\<lambda>ord. last_update_time ord < t)"

definition orders_updated_after :: "OrderBook \<Rightarrow> TimePoint \<Rightarrow> addr list" where
  "orders_updated_after s t = scan_orders s (\<lambda>ord. last_update_time ord > t)"

section \<open>Reachable states\<close>

text \<open>
  The members of the book are private: a state of the book is what a sequence of calls
  of the three mutating operations makes of the default-constructed book.
\<close>

datatype Op =
    AddOrder string Side double "64 word" TimePoint
  | RemoveOrder string TimePoint
  | AmendOrder string "double option" "64 word option" TimePoint

fun exec :: "OrderBook \<Rightarrow> Op \<Rightarrow> bool \<times> OrderBook" where
  "exec s (AddOrder i sd p q t) = add_order s i sd p q t"
| "exec s (RemoveOrder i t) = remove_order s i t"
| "exec s (AmendOrder i np nq t) = amend_order s i np nq t"

definition run :: "Op list \<Rightarrow> OrderBook" where
  "run ops = foldl (\<lambda>s c. snd (exec s c)) empty_book ops"

section \<open>Invariant of the book\<close>

text \<open>
  \<open>handles m\<close> are the addresses in the levels of a price map.  In every reachable state
  (\<open>base_inv\<close>): the index entry of an id names a handle whose order has that id and the
  side and price of the entry, and the handle is in a level of the map of that side; every
  handle in a level is allocated; and every allocated address is below the next address to
  allocate.  Nothing is said about which level holds a handle: after a NaN price that need
  not be the level that a lookup of the order's price finds.
\<close>

definition handles :: "pl_map \<Rightarrow> addr set" where
  "handles m = set (concat (map (\<lambda>kv. orders (snd kv)) m))"

definition base_inv :: "OrderBook \<Rightarrow> bool" where
  "base_inv s \<longleftrightarrow>
     (\<forall>i info. map_of (orders_by_id s) i = Some info \<longrightarrow>
        (\<exists>ord. heap s (list_it info) = Some ord \<and> oid ord = i \<and> side ord = lk_side info \<and>
               price ord = lk_price info) \<and>
        list_it info \<in> handles (book_of (lk_side info) s)) \<and>
     (\<forall>sd a. a \<in> handles (book_of sd s) \<longrightarrow> heap s a \<noteq> None) \<and>
     (\<forall>a. heap s a \<noteq> None \<longrightarrow> a < next_addr s)"

text \<open>
  The handles a caller can hold after a query in state \<open>s\<close>: the results of
  \<^verbatim>\<open>get_order\<close>, \<^verbatim>\<open>orders_at\<close>, \<^verbatim>\<open>orders_on_side\<close> and of the four time filters.
\<close>

definition returned_by_query :: "OrderBook \<Rightarrow> addr \<Rightarrow> bool" where
  "returned_by_query s a \<longleftrightarrow>
     (\<exists>i. get_order s i = Some a) \<or>
     (\<exists>sd p. a \<in> set (orders_at s sd p)) \<or>
     (\<exists>sd. a \<in> set (orders_on_side s sd)) \<or>
     (\<exists>t. a \<in> set (orders_created_before s t)) \<or>
     (\<exists>t. a \<in> set (orders_created_after s t)) \<or>
     (\<exists>t. a \<in> set (orders_updated_before s t)) \<or>
     (\<exists>t. a \<in> set (orders_updated_after s t))"

section \<open>Sample sessions\<close>

text \<open>The first two end-to-end scenarios of the specification, with explicit timestamps.\<close>

definition scenario1 :: "Op list" where
  "scenario1 = [AddOrder ''1'' Bid (Num 50) 400 1, AddOrder ''2'' Bid (Num 50) 300 2]"

definition scenario2 :: "Op list" where
  "scenario2 = scenario1 @ [AmendOrder ''1'' None (Some 500) 3]"

text \<open>Two adds at one price whose explicit timestamps go backwards.\<close>

definition unordered_calls :: "Op list" where
  "unordered_calls = [AddOrder ''1'' Bid (Num 50) 400 10, AddOrder ''2'' Bid (Num 50) 300 5]"

text \<open>A bid at 50 followed by a bid whose price is NaN.\<close>

definition nan_bid_calls :: "Op list" where
  "nan_bid_calls = [AddOrder ''a'' Bid (Num 50) 100 1, AddOrder ''n'' Bid NaN 100 2]"

text \<open>The same two bids followed by a better bid at 60.\<close>

definition nan_bid_then_better :: "Op list" where
  "nan_bid_then_better = nan_bid_calls @ [AddOrder ''b'' Bid (Num 60) 100 3]"

text \<open>Two bids at the prices 50 and 51.\<close>

definition two_level_calls :: "Op list" where
  "two_level_calls = [AddOrder ''a'' Bid (Num 50) 100 1, AddOrder ''b'' Bid (Num 51) 100 2]"

text \<open>
  A NaN bid into the empty book, a bid at 60, the removal of the NaN bid and an ask at 55.
\<close>

definition nan_key_calls :: "Op list" where
  "nan_key_calls =
     [AddOrder ''n'' Bid NaN 100 1, AddOrder ''x'' Bid (Num 60) 100 2, RemoveOrder ''n'' 3,
      AddOrder ''y'' Ask (Num 55) 100 4]"

section \<open>Handles of a price map\<close>

lemma handles_Nil [simp]: "handles [] = {}"
  by (simp add: handles_def)

lemma handles_Cons [simp]: "handles (kv # m) = set (orders (snd kv)) \<union> handles m"
  by (simp add: handles_def)

lemma handles_append [simp]: "handles (m @ m') = handles m \<union> handles m'"
  by (simp add: handles_def)

lemma map_find_less: "map_find cmp k m = Some j \<Longrightarrow> j < length m"
  by (simp add: map_find_def Let_def split: if_splits)

lemma map_emplace_less: "map_emplace cmp k v m = (m1, j) \<Longrightarrow> j < length m1"
proof (induction m arbitrary: m1 j)
  case Nil
  then show ?case by auto
next
  case (Cons kv m)
  then show ?case by (auto split: if_splits prod.splits)
qed

lemma handles_emplace:
  "map_emplace cmp k v m = (m1, j) \<Longrightarrow> orders v = [] \<Longrightarrow> handles m1 = handles m"
proof (induction m arbitrary: m1 j)
  case Nil
  then show ?case by auto
next
  case (Cons kv m)
  then show ?case by (auto split: if_splits prod.splits)
qed

lemma push_back_at_0 [simp]:
  "push_back_at 0 a (kv # m) = (fst kv, (snd kv)\<lparr>orders := orders (snd kv) @ [a]\<rparr>) # m"
  by (simp add: push_back_at_def)

lemma push_back_at_Suc [simp]:
  "push_back_at (Suc j) a (kv # m) = kv # push_back_at j a m"
  by (simp add: push_back_at_def)

lemma handles_push_back_at:
  "j < length m \<Longrightarrow> handles (push_back_at j a m) = insert a (handles m)"
proof (induction m arbitrary: j)
  case Nil
  then show ?case by simp
next
  case (Cons kv m)
  then show ?case by (cases j) auto
qed

lemma handles_level_push_back:
  "handles (level_push_back cmp p a m) = insert a (handles m)"
proof (cases "map_find cmp p m")
  case (Some j)
  with map_find_less [OF Some] show ?thesis
    by (simp add: level_push_back_def handles_push_back_at)
next
  case None
  obtain m1 j where e: "map_emplace cmp p \<lparr>level_price = p, orders = []\<rparr> m = (m1, j)"
    by (cases "map_emplace cmp p \<lparr>level_price = p, orders = []\<rparr> m")
  from handles_emplace [OF e] have "handles m1 = handles m" by simp
  with None e map_emplace_less [OF e] show ?thesis
    by (simp add: level_push_back_def handles_push_back_at)
qed

lemma handles_list_erase_subset: "handles (list_erase a m) \<subseteq> handles m"
proof (induction m)
  case Nil
  show ?case by (simp add: list_erase_def)
next
  case (Cons kv m)
  then show ?case
    using set_remove1_subset [of a "orders (snd kv)"] by (auto simp add: list_erase_def)
qed

lemma handles_list_erase_keeps:
  "b \<noteq> a \<Longrightarrow> b \<in> handles m \<Longrightarrow> b \<in> handles (list_erase a m)"
  by (induction m) (auto simp add: list_erase_def)

lemma handles_map_erase_subset: "handles (map_erase j m) \<subseteq> handles m"
proof -
  have "handles (take j m) \<union> handles (drop j m) = handles m"
    using handles_append [of "take j m" "drop j m"] by simp
  moreover have "handles (drop (Suc j) m) \<subseteq> handles (drop j m)"
    by (cases "j < length m") (auto simp add: Cons_nth_drop_Suc [symmetric])
  ultimately show ?thesis by (auto simp add: map_erase_def)
qed

lemma handles_map_erase_empty:
  assumes "orders (snd (m ! j)) = []"
  shows "handles (map_erase j m) = handles m"
proof (cases "j < length m")
  case True
  then have "m = take j m @ (m ! j) # drop (Suc j) m" by (rule id_take_nth_drop)
  then have "handles m = handles (take j m) \<union> handles ((m ! j) # drop (Suc j) m)"
    using handles_append [of "take j m" "(m ! j) # drop (Suc j) m"] by simp
  with assms show ?thesis by (simp add: map_erase_def)
next
  case False
  then show ?thesis by (simp add: map_erase_def)
qed

lemma handles_level_erase_subset: "handles (level_erase j a m) \<subseteq> handles m"
  using handles_list_erase_subset [of a m] handles_map_erase_subset [of j "list_erase a m"]
  by (auto simp add: level_erase_def Let_def)

lemma handles_level_erase_keeps:
  "b \<noteq> a \<Longrightarrow> b \<in> handles m \<Longrightarrow> b \<in> handles (level_erase j a m)"
  using handles_list_erase_keeps [of b a m]
  by (auto simp add: level_erase_def Let_def handles_map_erase_empty)

lemma orders_at_handles:
  assumes "a \<in> set (orders_at s sd p)"
  shows "a \<in> handles (book_of sd s)"
proof (cases "map_find (cmp_of sd) p (book_of sd s)")
  case None
  with assms show ?thesis by (simp add: orders_at_def)
next
  case (Some j)
  with assms have m: "a \<in> set (orders (snd (book_of sd s ! j)))"
    by (simp add: orders_at_def)
  from map_find_less [OF Some] have "book_of sd s ! j \<in> set (book_of sd s)" by simp
  with m show ?thesis unfolding handles_def by auto
qed

lemma orders_on_side_handles: "set (orders_on_side s sd) = handles (book_of sd s)"
  by (simp add: orders_on_side_def handles_def)

section \<open>The invariant holds in every reachable state\<close>

lemma book_of_set_book:
  "book_of sd' (set_book sd m s) = (if sd' = sd then m else book_of sd' s)"
  by (cases sd; cases sd') (simp_all add: book_of_def set_book_def)

lemma book_of_updates [simp]:
  "book_of sd (s\<lparr>heap := h\<rparr>) = book_of sd s"
  "book_of sd (s\<lparr>next_addr := n\<rparr>) = book_of sd s"
  "book_of sd (s\<lparr>orders_by_id := ix\<rparr>) = book_of sd s"
  by (cases sd; simp add: book_of_def)+

lemma set_book_fields [simp]:
  "heap (set_book sd m s) = heap s"
  "next_addr (set_book sd m s) = next_addr s"
  "orders_by_id (set_book sd m s) = orders_by_id s"
  by (cases sd; simp add: set_book_def)+

lemma inv_idx:
  "base_inv s \<Longrightarrow> map_of (orders_by_id s) i = Some info \<Longrightarrow>
   \<exists>ord. heap s (list_it info) = Some ord \<and> oid ord = i \<and> side ord = lk_side info \<and>
         price ord = lk_price info"
  by (simp add: base_inv_def)

lemma inv_idx_mem:
  "base_inv s \<Longrightarrow> map_of (orders_by_id s) i = Some info \<Longrightarrow>
   list_it info \<in> handles (book_of (lk_side info) s)"
  by (simp add: base_inv_def)

lemma inv_allocated: "base_inv s \<Longrightarrow> a \<in> handles (book_of sd s) \<Longrightarrow> heap s a \<noteq> None"
  by (simp add: base_inv_def)

lemma inv_heap_bound: "base_inv s \<Longrightarrow> heap s a = Some ord \<Longrightarrow> a < next_addr s"
  by (simp add: base_inv_def)

lemma base_inv_empty: "base_inv empty_book"
  by (simp add: base_inv_def empty_book_def book_of_def split: Side.splits)

text \<open>
  One step that rewrites the order of an indexed id and files its handle again in the map
  of its side, losing no other handle: the three successful paths of \<^verbatim>\<open>amend_order\<close>.
\<close>

lemma base_inv_refile:
  assumes inv: "base_inv s" and look: "map_of (orders_by_id s) i = Some info"
    and hp: "heap s (list_it info) = Some ord"
    and hp': "heap s' = (heap s)(list_it info \<mapsto> ord')"
    and ord': "oid ord' = oid ord" "side ord' = side ord"
    and idx': "map_of (orders_by_id s') =
        (map_of (orders_by_id s))(i \<mapsto>
           \<lparr>lk_side = lk_side info, lk_price = price ord', list_it = list_it info\<rparr>)"
    and nxt: "next_addr s' = next_addr s"
    and other: "\<And>sd'. sd' \<noteq> lk_side info \<Longrightarrow> book_of sd' s' = book_of sd' s"
    and mem: "list_it info \<in> handles (book_of (lk_side info) s')"
    and sub: "handles (book_of (lk_side info) s') \<subseteq>
                insert (list_it info) (handles (book_of (lk_side info) s))"
    and keep: "\<And>b. b \<in> handles (book_of (lk_side info) s) \<Longrightarrow> b \<noteq> list_it info \<Longrightarrow>
                 b \<in> handles (book_of (lk_side info) s')"
  shows "base_inv s'"
  unfolding base_inv_def
proof (intro conjI allI impI)
  from inv_idx [OF inv look] hp have o: "oid ord = i" "side ord = lk_side info" by auto
  fix j info' assume j: "map_of (orders_by_id s') j = Some info'"
  show "\<exists>x. heap s' (list_it info') = Some x \<and> oid x = j \<and> side x = lk_side info' \<and>
            price x = lk_price info'"
  proof (cases "j = i")
    case True
    with j idx' have "info' = \<lparr>lk_side = lk_side info, lk_price = price ord',
        list_it = list_it info\<rparr>" by simp
    with True hp' ord' o show ?thesis by simp
  next
    case False
    with j idx' have old: "map_of (orders_by_id s) j = Some info'" by simp
    from inv_idx [OF inv old] inv_idx [OF inv look] False
    have "list_it info' \<noteq> list_it info" by auto
    with inv_idx [OF inv old] hp' show ?thesis by simp
  qed
  show "list_it info' \<in> handles (book_of (lk_side info') s')"
  proof (cases "j = i")
    case True
    with j idx' have "info' = \<lparr>lk_side = lk_side info, lk_price = price ord',
        list_it = list_it info\<rparr>" by simp
    with mem show ?thesis by simp
  next
    case False
    with j idx' have old: "map_of (orders_by_id s) j = Some info'" by simp
    from inv_idx [OF inv old] inv_idx [OF inv look] False
    have ne: "list_it info' \<noteq> list_it info" by auto
    from inv_idx_mem [OF inv old] ne show ?thesis
      by (cases "lk_side info' = lk_side info") (auto simp add: other keep)
  qed
next
  fix sd' a assume a: "a \<in> handles (book_of sd' s')"
  have "a = list_it info \<or> a \<in> handles (book_of sd' s)"
    using a sub by (cases "sd' = lk_side info") (auto simp add: other)
  with inv_allocated [OF inv, of a sd'] hp hp' show "heap s' a \<noteq> None" by auto
next
  fix a assume "heap s' a \<noteq> None"
  with hp' hp have "heap s a \<noteq> None" by (auto split: if_splits)
  with inv nxt show "a < next_addr s'" by (auto simp add: base_inv_def)
qed

subsection \<open>\<^verbatim>\<open>add_order\<close>\<close>

lemma add_order_dup:
  "map_of (orders_by_id s) i \<noteq> None \<Longrightarrow> add_order s i sd p q t = (False, s)"
  by (simp add: add_order_def)

lemma add_order_new:
  "map_of (orders_by_id s) i = None \<Longrightarrow>
   add_order s i sd p q t =
     (True, (set_book sd (level_push_back (cmp_of sd) p (next_addr s) (book_of sd s)) s)
              \<lparr>heap := (heap s)(next_addr s \<mapsto> mk_Order i sd p q t),
               next_addr := Suc (next_addr s),
               orders_by_id := AList.update i
                 \<lparr>lk_side = sd, lk_price = p, list_it = next_addr s\<rparr> (orders_by_id s)\<rparr>)"
  by (simp add: add_order_def Let_def mk_Order_def)

lemma add_order_inv:
  assumes inv: "base_inv s"
  shows "base_inv (snd (add_order s i sd p q t))"
proof (cases "map_of (orders_by_id s) i")
  case (Some info)
  with inv show ?thesis by (simp add: add_order_dup)
next
  case None
  let ?a = "next_addr s"
  let ?s' = "snd (add_order s i sd p q t)"
  note eq = add_order_new [OF None, of sd p q t]
  have fresh: "heap s ?a = None"
    using inv_heap_bound [OF inv, of ?a] by (cases "heap s ?a") auto
  have bk: "book_of sd' ?s' =
      (if sd' = sd then level_push_back (cmp_of sd) p ?a (book_of sd s) else book_of sd' s)"
    for sd' by (simp add: eq book_of_set_book)
  have hs: "handles (book_of sd' ?s') =
      (if sd' = sd then insert ?a (handles (book_of sd s)) else handles (book_of sd' s))"
    for sd' by (simp add: bk handles_level_push_back)
  show ?thesis
    unfolding base_inv_def
  proof (intro conjI allI impI)
    fix j info assume "map_of (orders_by_id ?s') j = Some info"
    then have j: "((map_of (orders_by_id s))(i \<mapsto>
        \<lparr>lk_side = sd, lk_price = p, list_it = ?a\<rparr>)) j = Some info"
      by (simp add: eq AList.update_conv')
    show "\<exists>x. heap ?s' (list_it info) = Some x \<and> oid x = j \<and> side x = lk_side info \<and>
              price x = lk_price info"
    proof (cases "j = i")
      case True
      with j have "info = \<lparr>lk_side = sd, lk_price = p, list_it = ?a\<rparr>" by simp
      with True show ?thesis by (simp add: eq mk_Order_def)
    next
      case False
      with j have old: "map_of (orders_by_id s) j = Some info" by simp
      from inv_idx [OF inv old] fresh have "list_it info \<noteq> ?a" by auto
      with inv_idx [OF inv old] show ?thesis by (simp add: eq)
    qed
    show "list_it info \<in> handles (book_of (lk_side info) ?s')"
    proof (cases "j = i")
      case True
      with j have "info = \<lparr>lk_side = sd, lk_price = p, list_it = ?a\<rparr>" by simp
      then show ?thesis by (simp add: hs)
    next
      case False
      with j have old: "map_of (orders_by_id s) j = Some info" by simp
      from inv_idx_mem [OF inv old] show ?thesis by (auto simp add: hs)
    qed
  next
    fix sd' a assume "a \<in> handles (book_of sd' ?s')"
    then have "a = ?a \<or> a \<in> handles (book_of sd' s)" by (auto simp add: hs split: if_splits)
    with inv_allocated [OF inv, of a sd'] show "heap ?s' a \<noteq> None" by (auto simp add: eq)
  next
    fix a assume "heap ?s' a \<noteq> None"
    then have "a = ?a \<or> heap s a \<noteq> None" by (auto simp add: eq split: if_splits)
    with inv show "a < next_addr ?s'" by (auto simp add: eq base_inv_def)
  qed
qed

subsection \<open>\<^verbatim>\<open>remove_order\<close>\<close>

lemma remove_order_heap: "heap (snd (remove_order s i t)) = heap s"
  by (simp add: remove_order_def Let_def split: option.splits)

lemma remove_order_cases:
  obtains (same) "remove_order s i t = (False, s)"
  | (gone) info j where "map_of (orders_by_id s) i = Some info"
      "remove_order s i t =
         (True, (set_book (lk_side info)
                   (level_erase j (list_it info) (book_of (lk_side info) s)) s)
                  \<lparr>orders_by_id := AList.delete i (orders_by_id s)\<rparr>)"
  by (cases "map_of (orders_by_id s) i";
      cases "map_find (cmp_of (lk_side (the (map_of (orders_by_id s) i))))
               (lk_price (the (map_of (orders_by_id s) i)))
               (book_of (lk_side (the (map_of (orders_by_id s) i))) s)")
     (auto simp add: remove_order_def Let_def)

lemma remove_order_inv:
  assumes inv: "base_inv s"
  shows "base_inv (snd (remove_order s i t))"
proof (cases rule: remove_order_cases [of s i t])
  case same
  with inv show ?thesis by simp
next
  case (gone info j)
  let ?s' = "snd (remove_order s i t)"
  note eq = gone(2)
  have bk: "book_of sd' ?s' =
      (if sd' = lk_side info
       then level_erase j (list_it info) (book_of (lk_side info) s) else book_of sd' s)"
    for sd' by (simp add: eq book_of_set_book)
  show ?thesis
    unfolding base_inv_def
  proof (intro conjI allI impI)
    fix k info' assume "map_of (orders_by_id ?s') k = Some info'"
    then have k: "k \<noteq> i" "map_of (orders_by_id s) k = Some info'"
      by (auto simp add: eq AList.delete_conv' split: if_splits)
    from inv_idx [OF inv k(2)]
    show "\<exists>x. heap ?s' (list_it info') = Some x \<and> oid x = k \<and> side x = lk_side info' \<and>
              price x = lk_price info'"
      by (simp add: eq)
    from inv_idx [OF inv k(2)] inv_idx [OF inv gone(1)] k(1)
    have ne: "list_it info' \<noteq> list_it info" by auto
    from inv_idx_mem [OF inv k(2)] ne
    show "list_it info' \<in> handles (book_of (lk_side info') ?s')"
      by (auto simp add: bk handles_level_erase_keeps)
  next
    fix sd' a assume "a \<in> handles (book_of sd' ?s')"
    then have "a \<in> handles (book_of sd' s)"
      using handles_level_erase_subset [of j "list_it info" "book_of (lk_side info) s"]
      by (auto simp add: bk split: if_splits)
    with inv_allocated [OF inv] show "heap ?s' a \<noteq> None" by (simp add: eq)
  next
    fix a assume "heap ?s' a \<noteq> None"
    with inv show "a < next_addr ?s'" by (auto simp add: eq base_inv_def)
  qed
qed

subsection \<open>The paths of \<^verbatim>\<open>amend_order\<close>\<close>

lemma amend_order_unknown:
  "map_of (orders_by_id s) i = None \<Longrightarrow> amend_order s i np nq t = (False, s)"
  by (simp add: amend_order_def)

lemma amend_order_price:
  "map_of (orders_by_id s) i = Some info \<Longrightarrow>
   heap s (list_it info) = Some ord \<Longrightarrow>
   dneq x (lk_price info) \<Longrightarrow>
   amend_order s i (Some x) nq t =
     (True, (set_book (lk_side info)
               (level_push_back (cmp_of (lk_side info)) x (list_it info)
                  (case map_find (cmp_of (lk_side info)) (lk_price info)
                          (book_of (lk_side info) s) of
                     None \<Rightarrow> book_of (lk_side info) s
                   | Some j \<Rightarrow> level_erase j (list_it info) (book_of (lk_side info) s))) s)
              \<lparr>heap := (heap s)(list_it info \<mapsto>
                  ord\<lparr>price := x,
                      quantity := (case nq of None \<Rightarrow> quantity ord | Some q \<Rightarrow> q),
                      last_update_time := t,
                      last_txn := \<lparr>txn_type = Amend, txn_time = t\<rparr>\<rparr>),
               orders_by_id := AList.update i
                 \<lparr>lk_side = lk_side info, lk_price = x, list_it = list_it info\<rparr>
                 (orders_by_id s)\<rparr>)"
  by (simp add: amend_order_def Let_def)

lemma amend_order_noop:
  "map_of (orders_by_id s) i = Some info \<Longrightarrow>
   heap s (list_it info) = Some ord \<Longrightarrow>
   \<forall>x. np = Some x \<longrightarrow> \<not> dneq x (lk_price info) \<Longrightarrow>
   nq = None \<or> nq = Some (quantity ord) \<Longrightarrow>
   amend_order s i np nq t = (False, s)"
  by (cases np) (auto simp add: amend_order_def Let_def)

lemma amend_order_keep:
  "map_of (orders_by_id s) i = Some info \<Longrightarrow>
   heap s (list_it info) = Some ord \<Longrightarrow>
   \<forall>x. np = Some x \<longrightarrow> \<not> dneq x (lk_price info) \<Longrightarrow>
   q < quantity ord \<Longrightarrow>
   amend_order s i np (Some q) t =
     (True, s\<lparr>heap := (heap s)(list_it info \<mapsto>
                 ord\<lparr>quantity := q, last_txn := \<lparr>txn_type = Amend, txn_time = t\<rparr>\<rparr>)\<rparr>)"
  by (cases np) (auto simp add: amend_order_def Let_def)

lemma amend_order_back:
  "map_of (orders_by_id s) i = Some info \<Longrightarrow>
   heap s (list_it info) = Some ord \<Longrightarrow>
   \<forall>x. np = Some x \<longrightarrow> \<not> dneq x (lk_price info) \<Longrightarrow>
   quantity ord < q \<Longrightarrow>
   map_find (cmp_of (lk_side info)) (lk_price info) (book_of (lk_side info) s) = Some j \<Longrightarrow>
   amend_order s i np (Some q) t =
     (True, (set_book (lk_side info)
               (push_back_at j (list_it info)
                  (list_erase (list_it info) (book_of (lk_side info) s))) s)
              \<lparr>heap := (heap s)(list_it info \<mapsto>
                  ord\<lparr>quantity := q, last_update_time := t,
                      last_txn := \<lparr>txn_type = Amend, txn_time = t\<rparr>\<rparr>),
               orders_by_id := AList.update i
                 \<lparr>lk_side = lk_side info, lk_price = lk_price info, list_it = list_it info\<rparr>
                 (orders_by_id s)\<rparr>)"
  by (cases np) (auto simp add: amend_order_def Let_def)

lemma amend_order_lost:
  "map_of (orders_by_id s) i = Some info \<Longrightarrow>
   heap s (list_it info) = Some ord \<Longrightarrow>
   \<forall>x. np = Some x \<longrightarrow> \<not> dneq x (lk_price info) \<Longrightarrow>
   quantity ord < q \<Longrightarrow>
   map_find (cmp_of (lk_side info)) (lk_price info) (book_of (lk_side info) s) = None \<Longrightarrow>
   amend_order s i np (Some q) t = (False, s)"
  by (cases np) (auto simp add: amend_order_def Let_def)

lemma amend_order_inv:
  assumes inv: "base_inv s"
  shows "base_inv (snd (amend_order s i np nq t))"
proof (cases "map_of (orders_by_id s) i")
  case None
  with inv show ?thesis by (simp add: amend_order_unknown)
next
  case (Some info)
  note look = Some
  from inv_idx [OF inv look] obtain ord where
    hp: "heap s (list_it info) = Some ord" and ord: "oid ord = i" "side ord = lk_side info"
      "price ord = lk_price info" by blast
  let ?a = "list_it info"
  let ?sd = "lk_side info"
  let ?m = "book_of ?sd s"
  let ?s' = "snd (amend_order s i np nq t)"
  consider
      (price) x where "np = Some x" "dneq x (lk_price info)"
    | (noop) "\<forall>x. np = Some x \<longrightarrow> \<not> dneq x (lk_price info)"
        "nq = None \<or> nq = Some (quantity ord)"
    | (keep) q where "\<forall>x. np = Some x \<longrightarrow> \<not> dneq x (lk_price info)" "nq = Some q"
        "q < quantity ord"
    | (mtail) q where "\<forall>x. np = Some x \<longrightarrow> \<not> dneq x (lk_price info)" "nq = Some q"
        "quantity ord < q"
    by atomize_elim (cases np; cases nq; force simp add: not_less le_less)
  then show ?thesis
  proof cases
    case price
    note eq = amend_order_price [OF look hp price(2), of nq t]
    let ?m1 = "case map_find (cmp_of ?sd) (lk_price info) ?m of
                 None \<Rightarrow> ?m | Some j \<Rightarrow> level_erase j ?a ?m"
    have sub1: "handles ?m1 \<subseteq> handles ?m"
      using handles_level_erase_subset [of _ ?a ?m] by (auto split: option.splits)
    have keep1: "b \<in> handles ?m \<Longrightarrow> b \<noteq> ?a \<Longrightarrow> b \<in> handles ?m1" for b
      by (auto simp add: handles_level_erase_keeps split: option.splits)
    have bk: "book_of sd' ?s' =
        (if sd' = ?sd then level_push_back (cmp_of ?sd) x ?a ?m1 else book_of sd' s)" for sd'
      by (simp add: price(1) eq book_of_set_book)
    show ?thesis
    proof (rule base_inv_refile [OF inv look hp])
      show "heap ?s' = (heap s)(?a \<mapsto> ord\<lparr>price := x,
                      quantity := (case nq of None \<Rightarrow> quantity ord | Some q \<Rightarrow> q),
                      last_update_time := t,
                      last_txn := \<lparr>txn_type = Amend, txn_time = t\<rparr>\<rparr>)"
        by (simp add: price(1) eq)
      show "map_of (orders_by_id ?s') = (map_of (orders_by_id s))(i \<mapsto>
           \<lparr>lk_side = ?sd, lk_price = price (ord\<lparr>price := x,
                      quantity := (case nq of None \<Rightarrow> quantity ord | Some q \<Rightarrow> q),
                      last_update_time := t,
                      last_txn := \<lparr>txn_type = Amend, txn_time = t\<rparr>\<rparr>), list_it = ?a\<rparr>)"
        by (simp add: price(1) eq AList.update_conv')
      show "next_addr ?s' = next_addr s" by (simp add: price(1) eq)
      show "\<And>sd'. sd' \<noteq> ?sd \<Longrightarrow> book_of sd' ?s' = book_of sd' s" by (simp add: bk)
      show "?a \<in> handles (book_of ?sd ?s')" by (simp add: bk handles_level_push_back)
      show "handles (book_of ?sd ?s') \<subseteq> insert ?a (handles ?m)"
        using sub1 by (auto simp add: bk handles_level_push_back)
      show "\<And>b. b \<in> handles ?m \<Longrightarrow> b \<noteq> ?a \<Longrightarrow> b \<in> handles (book_of ?sd ?s')"
        using keep1 by (simp add: bk handles_level_push_back)
    qed simp_all
  next
    case noop
    with inv show ?thesis by (simp add: amend_order_noop [OF look hp])
  next
    case keep
    note eq = amend_order_keep [OF look hp keep(1,3), of t]
    have info: "\<lparr>lk_side = ?sd, lk_price = lk_price info, list_it = ?a\<rparr> = info" by simp
    show ?thesis
    proof (rule base_inv_refile [OF inv look hp])
      show "heap ?s' = (heap s)(?a \<mapsto>
          ord\<lparr>quantity := q, last_txn := \<lparr>txn_type = Amend, txn_time = t\<rparr>\<rparr>)"
        by (simp add: keep(2) eq)
      show "map_of (orders_by_id ?s') = (map_of (orders_by_id s))(i \<mapsto>
           \<lparr>lk_side = ?sd, lk_price = price (ord\<lparr>quantity := q,
               last_txn := \<lparr>txn_type = Amend, txn_time = t\<rparr>\<rparr>), list_it = ?a\<rparr>)"
        using look by (simp add: keep(2) eq ord info fun_upd_idem)
      show "next_addr ?s' = next_addr s" by (simp add: keep(2) eq)
      show "\<And>sd'. sd' \<noteq> ?sd \<Longrightarrow> book_of sd' ?s' = book_of sd' s" by (simp add: keep(2) eq)
      show "?a \<in> handles (book_of ?sd ?s')"
        using inv_idx_mem [OF inv look] by (simp add: keep(2) eq)
      show "handles (book_of ?sd ?s') \<subseteq> insert ?a (handles ?m)"
        by (auto simp add: keep(2) eq)
      show "\<And>b. b \<in> handles ?m \<Longrightarrow> b \<noteq> ?a \<Longrightarrow> b \<in> handles (book_of ?sd ?s')"
        by (simp add: keep(2) eq)
    qed simp_all
  next
    case mtail
    show ?thesis
    proof (cases "map_find (cmp_of ?sd) (lk_price info) ?m")
      case None
      with inv show ?thesis by (simp add: mtail(2) amend_order_lost [OF look hp mtail(1,3)])
    next
      case (Some j)
      note eq = amend_order_back [OF look hp mtail(1,3) Some, of t]
      have len: "j < length (list_erase ?a ?m)"
        using map_find_less [OF Some] by (simp add: list_erase_def)
      have bk: "book_of sd' ?s' =
          (if sd' = ?sd then push_back_at j ?a (list_erase ?a ?m) else book_of sd' s)" for sd'
        by (simp add: mtail(2) eq book_of_set_book)
      show ?thesis
      proof (rule base_inv_refile [OF inv look hp])
        show "heap ?s' = (heap s)(?a \<mapsto> ord\<lparr>quantity := q, last_update_time := t,
                      last_txn := \<lparr>txn_type = Amend, txn_time = t\<rparr>\<rparr>)"
          by (simp add: mtail(2) eq)
        show "map_of (orders_by_id ?s') = (map_of (orders_by_id s))(i \<mapsto>
           \<lparr>lk_side = ?sd, lk_price = price (ord\<lparr>quantity := q, last_update_time := t,
                      last_txn := \<lparr>txn_type = Amend, txn_time = t\<rparr>\<rparr>), list_it = ?a\<rparr>)"
          by (simp add: mtail(2) eq ord AList.update_conv')
        show "next_addr ?s' = next_addr s" by (simp add: mtail(2) eq)
        show "\<And>sd'. sd' \<noteq> ?sd \<Longrightarrow> book_of sd' ?s' = book_of sd' s" by (simp add: bk)
        show "?a \<in> handles (book_of ?sd ?s')" by (simp add: bk handles_push_back_at [OF len])
        show "handles (book_of ?sd ?s') \<subseteq> insert ?a (handles ?m)"
          using handles_list_erase_subset [of ?a ?m]
          by (auto simp add: bk handles_push_back_at [OF len])
        show "\<And>b. b \<in> handles ?m \<Longrightarrow> b \<noteq> ?a \<Longrightarrow> b \<in> handles (book_of ?sd ?s')"
          by (simp add: bk handles_push_back_at [OF len] handles_list_erase_keeps)
      qed simp_all
    qed
  qed
qed

lemma exec_inv: "base_inv s \<Longrightarrow> base_inv (snd (exec s c))"
  by (cases c) (simp_all add: add_order_inv remove_order_inv amend_order_inv)

lemma run_snoc: "run (ops @ [c]) = snd (exec (run ops) c)"
  by (simp add: run_def)

lemma run_inv: "base_inv (run ops)"
proof (induction ops rule: rev_induct)
  case Nil
  show ?case by (simp add: run_def base_inv_empty)
next
  case (snoc c ops)
  then show ?case by (simp add: run_snoc exec_inv)
qed

section \<open>Consequences of the invariant\<close>

lemma get_order_Some:
  "get_order s i = Some a \<longleftrightarrow> (\<exists>info. map_of (orders_by_id s) i = Some info \<and> list_it info = a)"
  by (auto simp add: get_order_def)

lemma active_order:
  assumes "base_inv s" and "get_order s i = Some a" and "heap s a = Some ord"
  obtains info where "map_of (orders_by_id s) i = Some info" "list_it info = a"
    "oid ord = i" "lk_side info = side ord" "lk_price info = price ord"
proof -
  from assms(2) obtain info where look: "map_of (orders_by_id s) i = Some info"
    and a: "list_it info = a" by (auto simp add: get_order_Some)
  from inv_idx [OF assms(1) look] a assms(3)
  have "oid ord = i" "lk_side info = side ord" "lk_price info = price ord" by auto
  with look a show thesis by (rule that)
qed

lemma query_allocated:
  assumes "base_inv s" and "returned_by_query s a"
  shows "heap s a \<noteq> None"
proof -
  have lv: "heap s a \<noteq> None" if "a \<in> handles (book_of sd s)" for sd
    using inv_allocated [OF assms(1) that] .
  have sc: "heap s a \<noteq> None" if "a \<in> set (scan_orders s P)" for P
    using that by (auto simp add: scan_orders_def split: option.splits)
  from assms(2) consider
      i where "get_order s i = Some a"
    | sd p where "a \<in> set (orders_at s sd p)"
    | sd where "a \<in> set (orders_on_side s sd)"
    | P where "a \<in> set (scan_orders s P)"
    unfolding returned_by_query_def orders_created_before_def orders_created_after_def
      orders_updated_before_def orders_updated_after_def by blast
  then show ?thesis
  proof cases
    case 1
    then obtain info where "map_of (orders_by_id s) i = Some info" "list_it info = a"
      by (auto simp add: get_order_Some)
    with inv_idx [OF assms(1) this(1)] show ?thesis by auto
  next
    case 2
    from lv [OF orders_at_handles [OF 2]] show ?thesis .
  next
    case 3
    then show ?thesis by (simp add: orders_on_side_handles lv)
  next
    case 4 then show ?thesis by (rule sc)
  qed
qed

lemma add_order_heap:
  assumes "base_inv s" and "heap s a = Some ord"
  shows "heap (snd (add_order s i sd p q t)) a = Some ord"
proof (cases "map_of (orders_by_id s) i")
  case (Some info)
  with assms(2) show ?thesis by (simp add: add_order_dup)
next
  case None
  from inv_heap_bound [OF assms] have "a \<noteq> next_addr s" by simp
  with assms(2) show ?thesis by (simp add: add_order_new [OF None])
qed

lemma amend_order_heap_other:
  "heap s a = Some ord \<Longrightarrow>
   map_of (orders_by_id s) i = Some info \<Longrightarrow> a \<noteq> list_it info \<Longrightarrow>
   heap (snd (amend_order s i np nq t)) a = Some ord"
  by (simp add: amend_order_def Let_def split: option.splits)

lemma amend_order_heap:
  assumes "base_inv s" and "heap s a = Some ord" and "oid ord \<noteq> i"
  shows "heap (snd (amend_order s i np nq t)) a = Some ord"
proof (cases "map_of (orders_by_id s) i")
  case None
  with assms(2) show ?thesis by (simp add: amend_order_unknown)
next
  case (Some info)
  from inv_idx [OF assms(1) Some] assms(2,3) have "a \<noteq> list_it info" by auto
  with assms(2) Some show ?thesis by (rule amend_order_heap_other)
qed

section \<open>Claims\<close>

lemmas eval_defs =
  run_def add_order_def amend_order_def remove_order_def empty_book_def
  level_push_back_def level_erase_def list_erase_def push_back_at_def map_erase_def
  map_find_def book_of_def set_book_def cmp_of_def
  DescPrice_def AscePrice_def dneq_def mk_Order_def Let_def

lemmas scenario_defs =
  scenario1_def scenario2_def unordered_calls_def nan_bid_calls_def nan_bid_then_better_def
  two_level_calls_def nan_key_calls_def

text \<open>
  C1: in every reachable book state in which order \<open>i\<close> is active (its handle is \<open>a\<close>,
  its value \<open>ord\<close>), for every timestamp \<open>t\<close>, an amend with the price omitted or equal
  to the current price (equal as \<^verbatim>\<open>==\<close> of the source has it) and a new quantity \<open>q'\<close>
  below the current one returns true.  The resulting state is the old state with the single
  store cell \<open>a\<close> overwritten by \<open>ord\<close> with quantity \<open>q'\<close> and last transaction
  (Amend, \<open>t\<close>): the last update time of the order, both price maps (so every level and
  every position in it), the index and every other order are the same as before.
\<close>

theorem amend_quantity_decrease:
  assumes "get_order (run ops) i = Some a" and "heap (run ops) a = Some ord"
    and "np = None \<or> (\<exists>x. np = Some x \<and> deq x (price ord))" and "q' < quantity ord"
  shows "amend_order (run ops) i np (Some q') t =
           (True, (run ops)\<lparr>heap := (heap (run ops))(a \<mapsto>
                     ord\<lparr>quantity := q', last_txn := \<lparr>txn_type = Amend, txn_time = t\<rparr>\<rparr>)\<rparr>)"
proof -
  from active_order [OF run_inv assms(1,2)] obtain info where
    look: "map_of (orders_by_id (run ops)) i = Some info" and a: "list_it info = a"
    and p: "lk_price info = price ord" by blast
  from assms(2) a have hp: "heap (run ops) (list_it info) = Some ord" by simp
  from assms(3) p have np: "\<forall>x. np = Some x \<longrightarrow> \<not> dneq x (lk_price info)"
    by (auto simp add: dneq_def)
  from amend_order_keep [OF look hp np assms(4), of t] a show ?thesis by simp
qed

theorem amend_quantity_decrease_witness:
  "get_order (run scenario2) ''2'' = Some 1 \<and>
   heap (run scenario2) 1 = Some (mk_Order ''2'' Bid (Num 50) 300 2) \<and>
   deq (Num 50) (price (mk_Order ''2'' Bid (Num 50) 300 2)) \<and>
   (200 :: 64 word) < quantity (mk_Order ''2'' Bid (Num 50) 300 2) \<and>
   amend_order (run scenario2) ''2'' (Some (Num 50)) (Some 200) 4 =
     (True, (run scenario2)\<lparr>heap := (heap (run scenario2))(1 \<mapsto>
        (mk_Order ''2'' Bid (Num 50) 300 2)
          \<lparr>quantity := 200, last_txn := \<lparr>txn_type = Amend, txn_time = 4\<rparr>\<rparr>)\<rparr>)"
proof -
  have g: "get_order (run scenario2) ''2'' = Some 1"
    by (simp add: scenario_defs eval_defs get_order_def)
  have h: "heap (run scenario2) 1 = Some (mk_Order ''2'' Bid (Num 50) 300 2)"
    by (simp add: scenario_defs eval_defs)
  have p: "deq (Num 50) (price (mk_Order ''2'' Bid (Num 50) 300 2))"
    by (simp add: mk_Order_def)
  have q: "(200 :: 64 word) < quantity (mk_Order ''2'' Bid (Num 50) 300 2)"
    by (simp add: mk_Order_def)
  from p have np: "Some (Num 50) = None \<or>
      (\<exists>x. Some (Num 50) = Some x \<and> deq x (price (mk_Order ''2'' Bid (Num 50) 300 2)))"
    by simp
  from amend_quantity_decrease [OF g h np q, of 4] g h p q
  show ?thesis by simp
qed

text \<open>
  C2, as amended: a query returns shared handles on the live orders, not copies.  Every
  handle returned by a query in a reachable state points to an order in the store;
  \<^verbatim>\<open>add_order\<close> and \<^verbatim>\<open>remove_order\<close> leave every field of every order in the store as
  it was (a removed order stays readable through a handle), and \<^verbatim>\<open>amend_order\<close> on id
  \<open>i\<close> leaves every order whose id is not \<open>i\<close> as it was.
\<close>

theorem query_handles_frame:
  "(returned_by_query (run ops) a \<longrightarrow> heap (run ops) a \<noteq> None) \<and>
   (heap (run ops) a = Some ord \<longrightarrow>
      heap (snd (add_order (run ops) i sd p q t)) a = Some ord \<and>
      heap (snd (remove_order (run ops) i t)) a = Some ord \<and>
      (oid ord \<noteq> i \<longrightarrow> heap (snd (amend_order (run ops) i np nq t)) a = Some ord))"
  using query_allocated [OF run_inv] add_order_heap [OF run_inv] amend_order_heap [OF run_inv]
  by (simp add: remove_order_heap)

theorem query_handles_frame_witness:
  "returned_by_query (run scenario1) 1 \<and>
   heap (run scenario1) 1 = Some (mk_Order ''2'' Bid (Num 50) 300 2) \<and>
   heap (snd (add_order (run scenario1) ''9'' Ask (Num 55) 20 3)) 1 =
     Some (mk_Order ''2'' Bid (Num 50) 300 2) \<and>
   heap (snd (remove_order (run scenario1) ''2'' 3)) 1 =
     Some (mk_Order ''2'' Bid (Num 50) 300 2) \<and>
   heap (snd (amend_order (run scenario1) ''1'' None (Some 500) 3)) 1 =
     Some (mk_Order ''2'' Bid (Num 50) 300 2)"
proof -
  have g: "get_order (run scenario1) ''2'' = Some 1"
    by (simp add: scenario_defs eval_defs get_order_def)
  then have r: "returned_by_query (run scenario1) 1"
    unfolding returned_by_query_def by blast
  have h: "heap (run scenario1) 1 = Some (mk_Order ''2'' Bid (Num 50) 300 2)"
    by (simp add: scenario_defs eval_defs)
  have o: "oid (mk_Order ''2'' Bid (Num 50) 300 2) \<noteq> ''1''" by (simp add: mk_Order_def)
  from query_handles_frame [of scenario1 1 "mk_Order ''2'' Bid (Num 50) 300 2" "''9''" Ask
                              "Num 55" 20 3]
       query_handles_frame [of scenario1 1 "mk_Order ''2'' Bid (Num 50) 300 2" "''2''" Ask
                              "Num 55" 20 3]
       query_handles_frame [of scenario1 1 "mk_Order ''2'' Bid (Num 50) 300 2" "''1''" Ask
                              "Num 55" 20 3 None "Some 500"]
       r h o
  show ?thesis by simp
qed

text \<open>
  C2 as stated fails: the handle that \<^verbatim>\<open>get_order\<close> returned for order 1 shows quantity
  400 and last update time 1 before, and quantity 500 and last update time 3 after a
  successful amend of that order.
\<close>

theorem query_snapshot_counterexample:
  "get_order (run scenario1) ''1'' = Some 0 \<and>
   map_option quantity (heap (run scenario1) 0) = Some 400 \<and>
   map_option last_update_time (heap (run scenario1) 0) = Some 1 \<and>
   fst (amend_order (run scenario1) ''1'' None (Some 500) 3) \<and>
   map_option quantity (heap (snd (amend_order (run scenario1) ''1'' None (Some 500) 3)) 0) =
     Some 500 \<and>
   map_option last_update_time
     (heap (snd (amend_order (run scenario1) ''1'' None (Some 500) 3)) 0) = Some 3"
  by (simp add: scenario_defs eval_defs get_order_def)

text \<open>
  C10: for an active order with quantity above zero, an amend without a price and with new
  quantity 0 returns true; the order stays in the index (\<^verbatim>\<open>get_order\<close> still returns the
  same handle), its quantity is 0, both price maps are what they were (so the order keeps
  its level and its position in it, and \<^verbatim>\<open>orders_at\<close> and \<^verbatim>\<open>orders_on_side\<close> answer as
  before) and the order is among the orders of its side.
\<close>

theorem amend_quantity_to_zero:
  assumes "get_order (run ops) i = Some a" and "heap (run ops) a = Some ord"
    and "0 < quantity ord"
  shows "fst (amend_order (run ops) i None (Some 0) t) = True \<and>
         get_order (snd (amend_order (run ops) i None (Some 0) t)) i = Some a \<and>
         map_option quantity (heap (snd (amend_order (run ops) i None (Some 0) t)) a) = Some 0 \<and>
         bid_book (snd (amend_order (run ops) i None (Some 0) t)) = bid_book (run ops) \<and>
         ask_book (snd (amend_order (run ops) i None (Some 0) t)) = ask_book (run ops) \<and>
         orders_at (snd (amend_order (run ops) i None (Some 0) t)) = orders_at (run ops) \<and>
         orders_on_side (snd (amend_order (run ops) i None (Some 0) t)) =
           orders_on_side (run ops) \<and>
         a \<in> set (orders_on_side (snd (amend_order (run ops) i None (Some 0) t)) (side ord))"
proof -
  from active_order [OF run_inv assms(1,2)] obtain info where
    look: "map_of (orders_by_id (run ops)) i = Some info" and a: "list_it info = a"
    and sp: "lk_side info = side ord" by blast
  from assms(2) a have hp: "heap (run ops) (list_it info) = Some ord" by simp
  have eq: "amend_order (run ops) i None (Some 0) t =
      (True, (run ops)\<lparr>heap := (heap (run ops))(a \<mapsto>
                 ord\<lparr>quantity := 0, last_txn := \<lparr>txn_type = Amend, txn_time = t\<rparr>\<rparr>)\<rparr>)"
    using amend_order_keep [OF look hp _ assms(3), of None t] a by simp
  have at: "orders_at ((run ops)\<lparr>heap := h\<rparr>) = orders_at (run ops)" for h
    by (intro ext) (simp add: orders_at_def cong: option.case_cong)
  have on: "orders_on_side ((run ops)\<lparr>heap := h\<rparr>) = orders_on_side (run ops)" for h
    by (intro ext) (simp add: orders_on_side_def)
  from inv_idx_mem [OF run_inv look] a sp
  have mem: "a \<in> set (orders_on_side (run ops) (side ord))"
    by (simp add: orders_on_side_handles)
  from assms(1) at on mem show ?thesis by (simp add: eq get_order_def)
qed

theorem amend_quantity_to_zero_witness:
  "get_order (run scenario1) ''1'' = Some 0 \<and>
   heap (run scenario1) 0 = Some (mk_Order ''1'' Bid (Num 50) 400 1) \<and>
   0 < quantity (mk_Order ''1'' Bid (Num 50) 400 1) \<and>
   fst (amend_order (run scenario1) ''1'' None (Some 0) 3) \<and>
   get_order (snd (amend_order (run scenario1) ''1'' None (Some 0) 3)) ''1'' = Some 0 \<and>
   map_option quantity (heap (snd (amend_order (run scenario1) ''1'' None (Some 0) 3)) 0) = Some 0 \<and>
   orders_at (snd (amend_order (run scenario1) ''1'' None (Some 0) 3)) Bid (Num 50) = [0, 1] \<and>
   orders_on_side (snd (amend_order (run scenario1) ''1'' None (Some 0) 3)) Bid = [0, 1]"
proof -
  have g: "get_order (run scenario1) ''1'' = Some 0"
    by (simp add: scenario_defs eval_defs get_order_def)
  have h: "heap (run scenario1) 0 = Some (mk_Order ''1'' Bid (Num 50) 400 1)"
    by (simp add: scenario_defs eval_defs)
  have q: "0 < quantity (mk_Order ''1'' Bid (Num 50) 400 1)"
    by (simp add: mk_Order_def)
  have l: "orders_at (run scenario1) Bid (Num 50) = [0, 1]"
    by (simp add: scenario_defs eval_defs orders_at_def)
  have l': "orders_on_side (run scenario1) Bid = [0, 1]"
    by (simp add: scenario_defs eval_defs orders_on_side_def)
  from amend_quantity_to_zero [OF g h q, of 3] g h q l l'
  show ?thesis by simp
qed

text \<open>
  C9: the result and the effect of \<^verbatim>\<open>remove_order\<close> do not depend on its timestamp
  argument: for every book state, every id and every two timestamps the two calls return
  the same boolean and the same resulting state.
\<close>

theorem remove_order_ignores_timestamp:
  "remove_order s i t1 = remove_order s i t2"
  by (simp add: remove_order_def)

theorem remove_order_ignores_timestamp_witness:
  "remove_order (run scenario1) ''1'' 7 = remove_order (run scenario1) ''1'' 9"
  using remove_order_ignores_timestamp [of "run scenario1" "''1''" 7 9]
  by simp

text \<open>
  C3 says that in every reachable state, whatever the explicit timestamps, the orders of
  a level are in ascending order of last update time (an order whose quantity was decreased
  keeps its place).  The code at the failing input: two adds at one price, the second with
  the earlier timestamp, and no amend.  The level lists the orders in the order of arrival,
  with last update times 10, 5, which is not ascending; the comments of the source say the
  level is kept earliest last update time first.
\<close>

theorem level_order_with_decreasing_timestamps:
  "orders_at (run unordered_calls) Bid (Num 50) = [0, 1] \<and>
   map_option last_update_time (heap (run unordered_calls) 0) = Some 10 \<and>
   map_option last_update_time (heap (run unordered_calls) 1) = Some 5 \<and>
   \<not> sorted [10 :: TimePoint, 5]"
  by (simp add: scenario_defs eval_defs orders_at_def)


text \<open>
  C5 says that a price-changing amend appends the order at the tail of the found or newly
  created level at the new price.  The code at the failing input: bids \<open>a\<close> at 50 and \<open>b\<close>
  at 51; amending \<open>b\<close> to the price NaN returns true, erases the level 51 and files \<open>b\<close>
  behind \<open>a\<close> in the level 50, because the lookup of NaN ends at \<^verbatim>\<open>begin()\<close>.  No level
  has the new price, and the orders that \<^verbatim>\<open>orders_at\<close> finds for NaN are not the ones it
  found before followed by \<open>b\<close>.
\<close>

theorem amend_to_nan_joins_best_level:
  "price_levels (run two_level_calls) Bid = [Num 51, Num 50] \<and>
   get_order (run two_level_calls) ''b'' = Some 1 \<and>
   map_option price (heap (run two_level_calls) 1) = Some (Num 51) \<and>
   orders_at (run two_level_calls) Bid NaN = [1] \<and>
   fst (amend_order (run two_level_calls) ''b'' (Some NaN) None 3) \<and>
   map_option price (heap (snd (amend_order (run two_level_calls) ''b'' (Some NaN) None 3)) 1) =
     Some NaN \<and>
   price_levels (snd (amend_order (run two_level_calls) ''b'' (Some NaN) None 3)) Bid =
     [Num 50] \<and>
   orders_at (snd (amend_order (run two_level_calls) ''b'' (Some NaN) None 3)) Bid (Num 50) =
     [0, 1] \<and>
   orders_at (snd (amend_order (run two_level_calls) ''b'' (Some NaN) None 3)) Bid NaN = [0, 1]"
  by (simp add: scenario_defs eval_defs get_order_def price_levels_def orders_at_def)

text \<open>
  C6 says that a quantity increase at the same price moves the order to the tail of the
  same price level.  The code at the failing input: bid \<open>a\<close> at 50, bid \<open>n\<close> at NaN (filed
  in the level 50), bid \<open>b\<close> at 60; increasing the quantity of \<open>n\<close> looks its price NaN up,
  finds the level 60 at \<^verbatim>\<open>begin()\<close>, unlinks \<open>n\<close> from the level 50 and appends it to the
  level 60.
\<close>

theorem increase_moves_nan_order_to_best_level:
  "get_order (run nan_bid_then_better) ''n'' = Some 1 \<and>
   map_option price (heap (run nan_bid_then_better) 1) = Some NaN \<and>
   map_option quantity (heap (run nan_bid_then_better) 1) = Some 100 \<and>
   orders_at (run nan_bid_then_better) Bid (Num 60) = [2] \<and>
   orders_at (run nan_bid_then_better) Bid (Num 50) = [0, 1] \<and>
   fst (amend_order (run nan_bid_then_better) ''n'' None (Some 101) 4) \<and>
   orders_at (snd (amend_order (run nan_bid_then_better) ''n'' None (Some 101) 4)) Bid (Num 60) =
     [2, 1] \<and>
   orders_at (snd (amend_order (run nan_bid_then_better) ''n'' None (Some 101) 4)) Bid (Num 50) =
     [0]"
  by (simp add: scenario_defs eval_defs get_order_def orders_at_def)

text \<open>
  C7 says that the number of price levels of a side is the number of distinct prices of
  its active orders and that every active order is at the location of its own price.  The
  code at the failing input: bid \<open>a\<close> at 50, then bid \<open>n\<close> at NaN.  Both orders are active
  bids, their prices 50 and NaN differ, and the side has one level, keyed 50, that holds
  both.
\<close>

theorem one_level_for_two_prices:
  "num_price_levels (run nan_bid_calls) Bid = 1 \<and>
   price_levels (run nan_bid_calls) Bid = [Num 50] \<and>
   get_order (run nan_bid_calls) ''a'' = Some 0 \<and>
   get_order (run nan_bid_calls) ''n'' = Some 1 \<and>
   map_option side (heap (run nan_bid_calls) 0) = Some Bid \<and>
   map_option price (heap (run nan_bid_calls) 0) = Some (Num 50) \<and>
   map_option side (heap (run nan_bid_calls) 1) = Some Bid \<and>
   map_option price (heap (run nan_bid_calls) 1) = Some NaN \<and>
   orders_at (run nan_bid_calls) Bid (Num 50) = [0, 1]"
  by (simp add: scenario_defs eval_defs get_order_def num_price_levels_def price_levels_def
      orders_at_def)

text \<open>
  C8 says that \<^verbatim>\<open>is_crossed\<close> is true exactly when both sides have an active price and
  the best ask is at or below the best bid.  The code at the failing input: a NaN bid into
  the empty book makes the key NaN, the bid \<open>x\<close> at 60 is filed under that key, the NaN
  bid is removed, and an ask \<open>y\<close> comes at 55.  The only active bid is at 60, the only
  active ask at 55, yet \<^verbatim>\<open>top_price\<close> of the bids is NaN and \<^verbatim>\<open>is_crossed\<close> is false.
\<close>

theorem nan_key_hides_crossing_bid:
  "top_price (run nan_key_calls) Bid = Some NaN \<and>
   top_price (run nan_key_calls) Ask = Some (Num 55) \<and>
   orders_on_side (run nan_key_calls) Bid = [1] \<and>
   map_option price (heap (run nan_key_calls) 1) = Some (Num 60) \<and>
   orders_on_side (run nan_key_calls) Ask = [2] \<and>
   map_option price (heap (run nan_key_calls) 2) = Some (Num 55) \<and>
   get_order (run nan_key_calls) ''n'' = None \<and>
   dle (Num 55) (Num 60) \<and>
   \<not> is_crossed (run nan_key_calls)"
  by (simp add: scenario_defs eval_defs get_order_def top_price_def is_crossed_def
      orders_on_side_def)

end
